theory Spec2Isabelle
  imports
    Main
    "HOL-Library.Char_ord"
    "HOL-Library.List_Lexorder"
    "HOL-Library.Product_Lexorder"
    "HOL-Library.Multiset"
begin

section \<open>Strings\<close>

text \<open>
  A Python \<^verbatim>\<open>str\<close> is modelled as a \<^typ>\<open>string\<close>: a list of characters, each
  read as the code point of the same number (0 to 255).  Strings are compared the
  way Python compares them, character by character, a proper prefix being smaller
  (the order of \<^theory_text>\<open>List_Lexorder\<close> over \<^theory_text>\<open>Char_ord\<close>).
\<close>

definition backslash :: char where
  "backslash = CHR 0x5C"

text \<open>\<^verbatim>\<open>str.lower\<close>: the letters A to Z and the upper-case letters of Latin-1
  (0xC0 to 0xDE without the multiplication sign 0xD7) move up by 32.\<close>

definition lower_char :: "char \<Rightarrow> char" where
  "lower_char c =
     (let n = (of_char c :: nat) in
      if (65 \<le> n \<and> n \<le> 90) \<or> (192 \<le> n \<and> n \<le> 222 \<and> n \<noteq> 215)
      then char_of (n + 32) else c)"

definition lower :: "string \<Rightarrow> string" where
  "lower s = map lower_char s"

text \<open>\<^verbatim>\<open>s.startswith(p)\<close>.\<close>

definition startswith :: "string \<Rightarrow> string \<Rightarrow> bool" where
  "startswith s p = (take (length p) s = p)"

text \<open>\<^verbatim>\<open>s.replace(old, new)\<close> for one-character \<^verbatim>\<open>old\<close> and \<^verbatim>\<open>new\<close>.\<close>

definition replace :: "string \<Rightarrow> char \<Rightarrow> char \<Rightarrow> string" where
  "replace s old new = map (\<lambda>c. if c = old then new else c) s"

text \<open>\<^verbatim>\<open>s.rfind(c)\<close>: the highest index of \<^verbatim>\<open>c\<close> in \<^verbatim>\<open>s\<close>, or -1.\<close>

fun rfind :: "string \<Rightarrow> char \<Rightarrow> int" where
  "rfind [] c = - 1"
| "rfind (x # xs) c =
     (let r = rfind xs c in
      if 0 \<le> r then r + 1 else if x = c then 0 else - 1)"

text \<open>\<^verbatim>\<open>s.split(sep)\<close> for a one-character separator: never the empty list.\<close>

fun str_split :: "string \<Rightarrow> char \<Rightarrow> string list" where
  "str_split [] sep = [[]]"
| "str_split (c # cs) sep =
     (if c = sep then [] # str_split cs sep
      else (case str_split cs sep of
              [] \<Rightarrow> [[c]]
            | w # ws \<Rightarrow> (c # w) # ws))"

text \<open>\<^verbatim>\<open>sep.join(xs)\<close>.\<close>

fun join :: "string \<Rightarrow> string list \<Rightarrow> string" where
  "join sep [] = []"
| "join sep [x] = x"
| "join sep (x # y # ys) = x @ sep @ join sep (y # ys)"

text \<open>The decimal numeral of a length, as an f-string prints it.\<close>

fun str_nat :: "nat \<Rightarrow> string" where
  "str_nat n =
     (if n < 10 then [''0123456789'' ! n]
      else str_nat (n div 10) @ [''0123456789'' ! (n mod 10)])"

declare str_nat.simps [simp del]

section \<open>Paths (pathlib on a POSIX host)\<close>

text \<open>
  A path object is its root (\<^verbatim>\<open>''\<close>, \<^verbatim>\<open>'/'\<close> or \<^verbatim>\<open>'//'\<close>; there is no drive)
  and the list of its segments.  \<open>Path\<close> parses a string as \<^verbatim>\<open>PurePosixPath\<close>
  does: \<^verbatim>\<open>posixpath.splitroot\<close> takes the root off, the rest is split at
  \<^verbatim>\<open>'/'\<close>, and empty segments and \<^verbatim>\<open>'.'\<close> are dropped.  A backslash is an
  ordinary character of a name.
\<close>

record pure_path =
  anchor :: string
  tail :: "string list"

definition splitroot :: "string \<Rightarrow> string \<times> string" where
  "splitroot p =
     (if take 1 p \<noteq> ''/'' then ([], p)
      else if take 1 (drop 1 p) \<noteq> ''/'' \<or> take 1 (drop 2 p) = ''/'' then (''/'', drop 1 p)
      else (''//'', drop 2 p))"

definition Path :: "string \<Rightarrow> pure_path" where
  "Path p =
     (let (r, rel) = splitroot p in
      \<lparr>anchor = r, tail = filter (\<lambda>x. x \<noteq> [] \<and> x \<noteq> ''.'') (str_split rel (CHR ''/''))\<rparr>)"

definition parts :: "pure_path \<Rightarrow> string list" where
  "parts p = (if anchor p = [] then tail p else anchor p # tail p)"

definition name :: "pure_path \<Rightarrow> string" where
  "name p = (if tail p = [] then [] else last (tail p))"

text \<open>The suffix starts at the last dot of the name, when that dot is neither the
  first nor the last character (pathlib up to Python 3.13).\<close>

definition suffix :: "pure_path \<Rightarrow> string" where
  "suffix p =
     (let nm = name p; i = rfind nm (CHR ''.'') in
      if 0 < i \<and> i < int (length nm) - 1 then drop (nat i) nm else [])"

definition parent :: "pure_path \<Rightarrow> pure_path" where
  "parent p = (if tail p = [] then p else p\<lparr>tail := butlast (tail p)\<rparr>)"

definition str :: "pure_path \<Rightarrow> string" where
  "str p = (let s = anchor p @ join ''/'' (tail p) in if s = [] then ''.'' else s)"

text \<open>The child of a directory, as the directory walk builds it from an entry's name.\<close>

definition make_child :: "pure_path \<Rightarrow> string \<Rightarrow> pure_path" where
  "make_child p n = p\<lparr>tail := tail p @ [n]\<rparr>"

text \<open>
  The exceptions a run can meet, each with its message where it has one.
  \<open>PermissionError\<close> is the subclass of \<^verbatim>\<open>OSError\<close> that the directory walk
  treats apart; \<open>OSError\<close> stands for every other exception the system raises.
\<close>

datatype error = PermissionError string | OSError string | ValueError

fun is_permission :: "error \<Rightarrow> bool" where
  "is_permission (PermissionError msg) = True"
| "is_permission e = False"

definition relative_to :: "pure_path \<Rightarrow> pure_path \<Rightarrow> error + pure_path" where
  "relative_to p other =
     (if anchor p = anchor other \<and> take (length (tail other)) (tail p) = tail other
      then Inr \<lparr>anchor = [], tail = drop (length (tail other)) (tail p)\<rparr>
      else Inl ValueError)"

section \<open>The file system\<close>

text \<open>
  The tree below the scanned root.  A directory lists its entries by name, in the
  order the host enumerates them.  \<open>File\<close> is an entry that \<^verbatim>\<open>stat()\<close> shows
  as a regular file; \<open>Special\<close> any other entry that is not a directory, also one
  whose \<^verbatim>\<open>stat()\<close> fails with an error \<^verbatim>\<open>is_file()\<close> ignores (a broken
  link); \<open>Unreadable e\<close> a directory whose listing raises \<open>e\<close>; and
  \<open>NoStat e t\<close> an entry that its directory lists as \<open>t\<close> and whose
  \<^verbatim>\<open>stat()\<close> raises \<open>e\<close>, an error \<^verbatim>\<open>is_file()\<close> does not ignore (a file in
  a directory that may be listed but not searched).
\<close>

datatype node =
    File
  | Special
  | Dir "(string \<times> node) list"
  | Unreadable error
  | NoStat error node

text \<open>\<^verbatim>\<open>file_path.is_file()\<close>: the answer, or the error of \<^verbatim>\<open>stat()\<close> raised
  again.\<close>

fun is_file :: "node \<Rightarrow> error + bool" where
  "is_file File = Inr True"
| "is_file (NoStat e t) = Inl e"
| "is_file t = Inr False"

text \<open>
  \<^verbatim>\<open>root_path.rglob("*")\<close>, as pathlib walks up to Python 3.12: the entries it
  yields, hidden ones included, and the error that ends the walk, if one does.
  Each directory is visited in turn, a directory before its subdirectories; a
  visit lists the directory and yields its entries.  Whether an entry is a
  directory to visit is read from the listing, without \<^verbatim>\<open>stat()\<close>.  A
  \<^verbatim>\<open>PermissionError\<close> of a listing is swallowed, and the directory yields
  nothing; any other error of a listing ends the walk.  (The walk also keeps a set
  of the paths it has yielded, which changes nothing: no directory lists a name
  twice.)
\<close>

fun walk :: "pure_path \<Rightarrow> node \<Rightarrow> (pure_path \<times> node) list \<times> error option"
  and walk_children ::
    "pure_path \<Rightarrow> (string \<times> node) list \<Rightarrow> (pure_path \<times> node) list \<times> error option"
where
  "walk p File = ([], None)"
| "walk p Special = ([], None)"
| "walk p (NoStat e t) = walk p t"
| "walk p (Unreadable e) = ([], if is_permission e then None else Some e)"
| "walk p (Dir cs) =
     (case walk_children p cs of
        (sub, raised) \<Rightarrow> (map (\<lambda>(n, c). (make_child p n, c)) cs @ sub, raised))"
| "walk_children p [] = ([], None)"
| "walk_children p ((n, c) # cs) =
     (case walk (make_child p n) c of
        (xs, Some e) \<Rightarrow> (xs, Some e)
      | (xs, None) \<Rightarrow>
          (case walk_children p cs of
             (ys, raised) \<Rightarrow> (xs @ ys, raised)))"

text \<open>Before it walks, \<^verbatim>\<open>rglob\<close> asks whether the root is a directory, with
  \<^verbatim>\<open>stat()\<close>: an error of that call is raised, and a root that is no directory
  yields nothing.\<close>

definition rglob :: "pure_path \<Rightarrow> node \<Rightarrow> (pure_path \<times> node) list \<times> error option" where
  "rglob p t = (case t of NoStat e t' \<Rightarrow> ([], Some e) | _ \<Rightarrow> walk p t)"

text \<open>
  What one run of the program sees: the result of \<^verbatim>\<open>Path(".").resolve()\<close>, the
  tree below it, the environment variables, the value of
  \<^verbatim>\<open>datetime.datetime.now().isoformat()\<close>, and for each file name the error that
  opening it for writing (or writing to it) raises, if any.
\<close>

record world =
  resolved :: "error + pure_path"
  tree :: node
  environ :: "string \<rightharpoonup> string"
  now :: string
  open_error :: "string \<rightharpoonup> error"

section \<open>get_image_paths\<close>

definition image_extensions :: "string set" where
  "image_extensions =
     {''.jpg'', ''.jpeg'', ''.png'', ''.gif'', ''.bmp'', ''.tiff'', ''.tif'',
      ''.webp'', ''.svg'', ''.ico'', ''.jfif'', ''.pjpeg'', ''.pjp'',
      ''.avif'', ''.apng'', ''.heic'', ''.heif''}"

definition ignore_dirs :: "string set" where
  "ignore_dirs =
     {''.git'', ''.github'', ''.vscode'', ''__pycache__'',
      ''node_modules'', ''venv'', ''.venv'', ''env'', ''dist'',
      ''build'', ''.next'', ''.nuxt'', ''out''}"

text \<open>The loop over the enumerated entries, \<open>image_paths\<close> being the list built so far.\<close>

fun scan :: "pure_path \<Rightarrow> (pure_path \<times> node) list \<Rightarrow> string list \<Rightarrow> error + string list" where
  "scan root_path [] image_paths = Inr image_paths"
| "scan root_path ((file_path, n) # rest) image_paths =
     (if \<exists>part \<in> set (parts file_path). part \<in> ignore_dirs
      then scan root_path rest image_paths
      else if startswith (name file_path) ''.''
      then scan root_path rest image_paths
      else
        (case is_file n of
           Inl e \<Rightarrow> Inl e
         | Inr True \<Rightarrow>
             (let ext = lower (suffix file_path) in
              if ext \<in> image_extensions then
                (case relative_to file_path root_path of
                   Inl e \<Rightarrow> Inl e
                 | Inr rel_path \<Rightarrow>
                     scan root_path rest
                       (image_paths @ [replace (str rel_path) backslash (CHR ''/'')]))
              else scan root_path rest image_paths)
         | Inr False \<Rightarrow> scan root_path rest image_paths))"

text \<open>
  The program only ever scans \<^verbatim>\<open>"."\<close>, so the root is the world's \<open>resolved\<close>.
  The loop runs its body on each entry as the walk yields it, so an error of the
  body at an entry comes before the error that ends the walk.
\<close>

definition get_image_paths :: "world \<Rightarrow> error + string list" where
  "get_image_paths w =
     (case resolved w of
        Inl e \<Rightarrow> Inl e
      | Inr root_path \<Rightarrow>
          (case rglob root_path (tree w) of
             (entries, raised) \<Rightarrow>
               (case scan root_path entries [] of
                  Inl e \<Rightarrow> Inl e
                | Inr image_paths \<Rightarrow>
                    (case raised of
                       Some e \<Rightarrow> Inl e
                     | None \<Rightarrow> Inr (sort image_paths)))))"

section \<open>Grouping\<close>

text \<open>
  A Python \<^verbatim>\<open>dict\<close> keeps its keys in the order of their first insertion, and
  that order reaches the written file, so a dictionary is a list of key-value pairs
  with distinct keys.  \<open>setdefault_empty\<close> is
  \<^verbatim>\<open>if k not in grouped: grouped[k] = []\<close>, and \<open>append_to\<close> is
  \<^verbatim>\<open>grouped[k].append(path)\<close> for a key that is present.
\<close>

type_synonym 'v dict = "(string \<times> 'v) list"

definition setdefault_empty :: "string list dict \<Rightarrow> string \<Rightarrow> string list dict" where
  "setdefault_empty grouped k =
     (if k \<notin> fst ` set grouped then grouped @ [(k, [])] else grouped)"

definition append_to :: "string list dict \<Rightarrow> string \<Rightarrow> string \<Rightarrow> string list dict" where
  "append_to grouped k path =
     map (\<lambda>(k', v). if k' = k then (k', v @ [path]) else (k', v)) grouped"

text \<open>The loop of \<^verbatim>\<open>group_by_folder\<close>, \<open>grouped\<close> being the dictionary so far.\<close>

fun group_by_folder_loop :: "string list \<Rightarrow> string list dict \<Rightarrow> string list dict" where
  "group_by_folder_loop [] grouped = grouped"
| "group_by_folder_loop (path # paths) grouped =
     (let folder = str (parent (Path path));
          folder = (if folder = ''.'' then ''root'' else folder);
          grouped = setdefault_empty grouped folder
      in group_by_folder_loop paths (append_to grouped folder path))"

definition group_by_folder :: "string list \<Rightarrow> string list dict" where
  "group_by_folder paths = group_by_folder_loop paths []"

text \<open>The loop of \<^verbatim>\<open>group_by_extension\<close>; the empty string is the one that is
  not truthy.\<close>

fun group_by_extension_loop :: "string list \<Rightarrow> string list dict \<Rightarrow> string list dict" where
  "group_by_extension_loop [] grouped = grouped"
| "group_by_extension_loop (path # paths) grouped =
     (let ext = lower (suffix (Path path));
          ext = (if ext = [] then ''no_extension'' else ext);
          grouped = setdefault_empty grouped ext
      in group_by_extension_loop paths (append_to grouped ext path))"

definition group_by_extension :: "string list \<Rightarrow> string list dict" where
  "group_by_extension paths = group_by_extension_loop paths []"

section \<open>The report document\<close>

record metadata =
  generated_at :: string
  total_images :: nat
  repository :: string
  commit_sha :: string
  run_id :: string

record statistics =
  stat_by_folder :: "nat dict"
  stat_by_extension :: "nat dict"

record images =
  all_paths :: "string list"
  by_folder :: "string list dict"
  by_extension :: "string list dict"

record document =
  metadata :: metadata
  statistics :: statistics
  images :: images
  summary :: string

text \<open>\<^verbatim>\<open>os.environ.get(k, default)\<close>.\<close>

definition environ_get :: "world \<Rightarrow> string \<Rightarrow> string \<Rightarrow> string" where
  "environ_get w k fallback = (case environ w k of None \<Rightarrow> fallback | Some v \<Rightarrow> v)"

text \<open>The two counting loops fill a fresh dictionary in the order of
  \<^verbatim>\<open>items()\<close>, one key for each key.\<close>

definition create_json_output :: "world \<Rightarrow> string list \<Rightarrow> document" where
  "create_json_output w image_paths =
     (let by_folder = group_by_folder image_paths;
          by_extension = group_by_extension image_paths;
          folder_stats = map (\<lambda>(folder, paths). (folder, length paths)) by_folder;
          extension_stats = map (\<lambda>(ext, paths). (ext, length paths)) by_extension
      in \<lparr>metadata =
            \<lparr>generated_at = now w,
             total_images = length image_paths,
             repository = environ_get w ''GITHUB_REPOSITORY'' ''local'',
             commit_sha = environ_get w ''GITHUB_SHA'' [],
             run_id = environ_get w ''GITHUB_RUN_ID'' []\<rparr>,
          statistics =
            \<lparr>stat_by_folder = folder_stats, stat_by_extension = extension_stats\<rparr>,
          images =
            \<lparr>all_paths = image_paths, by_folder = by_folder, by_extension = by_extension\<rparr>,
          summary =
            ''Found '' @ str_nat (length image_paths) @ '' image files across ''
              @ str_nat (length by_folder) @ '' folders''\<rparr>)"

section \<open>main\<close>

text \<open>
  The lines the program prints, one constructor for each \<^verbatim>\<open>print\<close> call of the
  source with the values it formats in; the fixed text of a line is not modelled.
  Printing is taken to succeed.
\<close>

datatype line =
    Start
  | NoImages
  | FoundCount nat
  | ExtHeader
  | ExtCount string nat
  | Success string
  | TotalImages nat
  | Failed error

text \<open>
  What a run leaves behind: the value \<^verbatim>\<open>main\<close> returns (the exit status), the
  lines on the two streams, the document dumped into the output file when the dump
  went through, and the lines appended to the file \<^verbatim>\<open>GITHUB_OUTPUT\<close> names.
\<close>

record outcome =
  returned :: int
  stdout :: "line list"
  stderr :: "line list"
  written :: "(string \<times> document) option"
  appended :: "(string \<times> string list) option"

text \<open>The \<^verbatim>\<open>except\<close> branch: whatever was printed and written stays.\<close>

definition failed :: "line list \<Rightarrow> (string \<times> document) option \<Rightarrow> error \<Rightarrow> outcome" where
  "failed out file e =
     \<lparr>returned = 1, stdout = out, stderr = [Failed e], written = file, appended = None\<rparr>"

text \<open>The value of \<^verbatim>\<open>output\<close> after the \<^verbatim>\<open>if not image_paths\<close> statement of
  \<^verbatim>\<open>main\<close>.\<close>

definition main_output :: "world \<Rightarrow> string list \<Rightarrow> document" where
  "main_output w image_paths =
     (if image_paths = [] then
        \<lparr>metadata =
           \<lparr>generated_at = now w,
            total_images = 0,
            repository = environ_get w ''GITHUB_REPOSITORY'' ''local'',
            commit_sha = environ_get w ''GITHUB_SHA'' [],
            run_id = environ_get w ''GITHUB_RUN_ID'' []\<rparr>,
         statistics = \<lparr>stat_by_folder = [], stat_by_extension = []\<rparr>,
         images = \<lparr>all_paths = [], by_folder = [], by_extension = []\<rparr>,
         summary = ''No image files found''\<rparr>
      else create_json_output w image_paths)"

text \<open>The lines that statement prints.\<close>

definition main_report :: "string list \<Rightarrow> line list" where
  "main_report image_paths =
     (if image_paths = [] then [NoImages]
      else
        (let by_ext = group_by_extension image_paths in
         [FoundCount (length image_paths), ExtHeader]
           @ map (\<lambda>(ext, paths). ExtCount ext (length paths)) (sort by_ext)))"

definition main :: "world \<Rightarrow> outcome" where
  "main w =
     (case get_image_paths w of
        Inl e \<Rightarrow> failed [Start] None e
      | Inr image_paths \<Rightarrow>
          (let out = Start # main_report image_paths;
               output = main_output w image_paths;
               output_file = ''image_paths.json''
           in case open_error w output_file of
                Some e \<Rightarrow> failed out None e
              | None \<Rightarrow>
                  (let out = out @ [Success output_file, TotalImages (total_images (metadata output))];
                       file = Some (output_file, output)
                   in case environ w ''GITHUB_OUTPUT'' of
                        None \<Rightarrow>
                          \<lparr>returned = 0, stdout = out, stderr = [], written = file,
                           appended = None\<rparr>
                      | Some sink \<Rightarrow>
                          (case open_error w sink of
                             Some e \<Rightarrow> failed out file e
                           | None \<Rightarrow>
                               \<lparr>returned = 0, stdout = out, stderr = [], written = file,
                                appended =
                                  Some (sink,
                                    [''total_images='' @ str_nat (total_images (metadata output))
                                       @ [CHR 0x0A],
                                     ''output_file='' @ output_file @ [CHR 0x0A]])\<rparr>))))"

section \<open>The notions the properties are stated in\<close>

text \<open>The key \<^verbatim>\<open>group_by_folder\<close> files a path under: its parent directory, or
  \<^verbatim>\<open>"root"\<close> when the parent prints as \<^verbatim>\<open>"."\<close>.\<close>

definition folder_key :: "string \<Rightarrow> string" where
  "folder_key path =
     (let folder = str (parent (Path path)) in if folder = ''.'' then ''root'' else folder)"

text \<open>The key \<^verbatim>\<open>group_by_extension\<close> files a path under: its lowered suffix, or
  \<^verbatim>\<open>"no_extension"\<close> when there is none.\<close>

definition extension_key :: "string \<Rightarrow> string" where
  "extension_key path =
     (let ext = lower (suffix (Path path)) in if ext = [] then ''no_extension'' else ext)"

text \<open>The number a string of decimal digits denotes.\<close>

definition decimal_value :: "string \<Rightarrow> nat" where
  "decimal_value s = foldl (\<lambda>a c. 10 * a + (of_char c - 48)) 0 s"

text \<open>The elements of a list in the order of their first occurrence.\<close>

definition first_seen :: "'a list \<Rightarrow> 'a list" where
  "first_seen xs = rev (remdups (rev xs))"

text \<open>
  Grouping as the specification words it: one group for each key, the keys in the
  order in which the input first shows them, and in each group the paths of that
  key in the order of the input.
\<close>

definition grouped_by :: "(string \<Rightarrow> string) \<Rightarrow> string list \<Rightarrow> string list dict" where
  "grouped_by key paths =
     map (\<lambda>k. (k, filter (\<lambda>p. key p = k) paths)) (first_seen (map key paths))"

text \<open>
  A dictionary of groups partitions a list of paths: its keys are distinct, every
  path of the list is in exactly one group, and the groups together hold the paths
  of the list, each as often as the list does.
\<close>

definition partitions :: "string list dict \<Rightarrow> string list \<Rightarrow> bool" where
  "partitions grouped paths \<longleftrightarrow>
     distinct (map fst grouped) \<and>
     (\<forall>p \<in> set paths. \<exists>!kv. kv \<in> set grouped \<and> p \<in> set (snd kv)) \<and>
     mset (concat (map snd grouped)) = mset paths"

text \<open>A document reports a list of paths: it holds the list, its two groupings
  partition the list, and its counts are the sizes of the groups and add up to
  \<open>total_images\<close>, the length of the list.\<close>

definition reports :: "document \<Rightarrow> string list \<Rightarrow> bool" where
  "reports d paths \<longleftrightarrow>
     all_paths (images d) = paths \<and>
     partitions (by_folder (images d)) paths \<and>
     partitions (by_extension (images d)) paths \<and>
     stat_by_folder (statistics d) = map (\<lambda>(k, v). (k, length v)) (by_folder (images d)) \<and>
     stat_by_extension (statistics d) = map (\<lambda>(k, v). (k, length v)) (by_extension (images d)) \<and>
     sum_list (map snd (stat_by_folder (statistics d))) = total_images (metadata d) \<and>
     sum_list (map snd (stat_by_extension (statistics d))) = total_images (metadata d) \<and>
     total_images (metadata d) = length paths"

text \<open>The entry a list of segments leads to, from the root of the tree.\<close>

fun lookup :: "node \<Rightarrow> string list \<Rightarrow> node option" where
  "lookup t [] = Some t"
| "lookup (Dir cs) (s # segs) =
     (case map_of cs s of None \<Rightarrow> None | Some c \<Rightarrow> lookup c segs)"
| "lookup (NoStat e t) (s # segs) = lookup t (s # segs)"
| "lookup t (s # segs) = None"

text \<open>The names a POSIX directory can hold.\<close>

definition posix_name :: "string \<Rightarrow> bool" where
  "posix_name n \<longleftrightarrow> n \<noteq> [] \<and> CHR ''/'' \<notin> set n \<and> n \<noteq> ''.'' \<and> n \<noteq> ''..''"

text \<open>Every name in the tree satisfies \<open>P\<close>.\<close>

fun names_all :: "(string \<Rightarrow> bool) \<Rightarrow> node \<Rightarrow> bool" where
  "names_all P (Dir cs) = (\<forall>(n, c) \<in> set cs. P n \<and> names_all P c)"
| "names_all P (NoStat e t) = names_all P t"
| "names_all P t = True"

text \<open>No directory of the tree lists a name twice.\<close>

fun distinct_names :: "node \<Rightarrow> bool" where
  "distinct_names (Dir cs) = (distinct (map fst cs) \<and> (\<forall>(n, c) \<in> set cs. distinct_names c))"
| "distinct_names (NoStat e t) = distinct_names t"
| "distinct_names t = True"

text \<open>A tree as a POSIX file system holds it: in every directory the names are
  distinct and each is a name a directory can hold.\<close>

definition well_formed :: "node \<Rightarrow> bool" where
  "well_formed t \<longleftrightarrow> names_all posix_name t \<and> distinct_names t"

text \<open>No name in the tree holds a backslash.\<close>

definition backslash_free :: "node \<Rightarrow> bool" where
  "backslash_free t \<longleftrightarrow> names_all (\<lambda>n. backslash \<notin> set n) t"

text \<open>A document with its time stamp blanked, and a run's outcome with the time
  stamp of the written document blanked.\<close>

definition without_timestamp :: "document \<Rightarrow> document" where
  "without_timestamp d = d\<lparr>metadata := (metadata d)\<lparr>generated_at := []\<rparr>\<rparr>"

definition outcome_without_timestamp :: "outcome \<Rightarrow> outcome" where
  "outcome_without_timestamp r =
     r\<lparr>written := map_option (\<lambda>(f, d). (f, without_timestamp d)) (written r)\<rparr>"

text \<open>What a scan enumerates, without the order: the entries, each with the answer
  of \<^verbatim>\<open>is_file()\<close>, or the error the scan raises.\<close>

definition snapshot :: "world \<Rightarrow> error + (pure_path \<times> (error + bool)) multiset" where
  "snapshot w =
     (case resolved w of
        Inl e \<Rightarrow> Inl e
      | Inr root_path \<Rightarrow>
          (case rglob root_path (tree w) of
             (entries, raised) \<Rightarrow>
               (case scan root_path entries [] of
                  Inl e \<Rightarrow> Inl e
                | Inr image_paths \<Rightarrow>
                    (case raised of
                       Some e \<Rightarrow> Inl e
                     | None \<Rightarrow> Inr (mset (map (\<lambda>(p, n). (p, is_file n)) entries))))))"

text \<open>What the loop of \<^verbatim>\<open>get_image_paths\<close> does with one enumerated entry, given
  the entry's path and the outcome of \<^verbatim>\<open>is_file()\<close>, should the loop ask for it:
  it raises, or it appends nothing or the one string of the entry.\<close>

definition selected :: "pure_path \<Rightarrow> pure_path \<times> (error + bool) \<Rightarrow> error + string list" where
  "selected root_path =
     (\<lambda>(file_path, f).
        if (\<exists>part \<in> set (parts file_path). part \<in> ignore_dirs)
           \<or> startswith (name file_path) ''.''
        then Inr []
        else
          (case f of
             Inl e \<Rightarrow> Inl e
           | Inr is_f \<Rightarrow>
               if is_f \<and> lower (suffix file_path) \<in> image_extensions
               then Inr [replace
                      (str \<lparr>anchor = [],
                            tail = drop (length (tail root_path)) (tail file_path)\<rparr>)
                      backslash (CHR ''/'')]
               else Inr []))"

text \<open>The first error of a list of outcomes, or the lists of the outcomes joined.\<close>

fun collect :: "(error + 'a list) list \<Rightarrow> error + 'a list" where
  "collect [] = Inr []"
| "collect (Inl e # xs) = Inl e"
| "collect (Inr ys # xs) = (case collect xs of Inl e \<Rightarrow> Inl e | Inr zs \<Rightarrow> Inr (ys @ zs))"

text \<open>A path strictly below another: the same root, and more segments.\<close>

definition under :: "pure_path \<Rightarrow> pure_path \<Rightarrow> bool" where
  "under p q \<longleftrightarrow> anchor q = anchor p \<and> (\<exists>segs. segs \<noteq> [] \<and> tail q = tail p @ segs)"

section \<open>Example worlds\<close>

text \<open>A run in \<^verbatim>\<open>/home/repo\<close> over the given tree, with no environment variable
  set and every file writable.\<close>

definition world_of :: "node \<Rightarrow> world" where
  "world_of t =
     \<lparr>resolved = Inr \<lparr>anchor = ''/'', tail = [''home'', ''repo'']\<rparr>,
      tree = t,
      environ = Map.empty,
      now = ''2024-01-01T00:00:00'',
      open_error = Map.empty\<rparr>"




section \<open>Grouping refines its specification\<close>

lemma first_seen_snoc:
  "first_seen (xs @ [x]) = (if x \<in> set xs then first_seen xs else first_seen xs @ [x])"
  by (simp add: first_seen_def)

lemma set_first_seen: "set (first_seen xs) = set xs"
  by (simp add: first_seen_def)

lemma distinct_first_seen: "distinct (first_seen xs)"
  by (simp add: first_seen_def)

lemma keys_grouped_by: "map fst (grouped_by key paths) = first_seen (map key paths)"
  by (simp add: grouped_by_def comp_def)

lemma group_step:
  "append_to (setdefault_empty (grouped_by key done) (key p)) (key p) p
     = grouped_by key (done @ [p])"
proof (cases "key p \<in> set (map key done)")
  case True
  then have "key p \<in> fst ` set (grouped_by key done)"
    by (simp add: grouped_by_def image_comp comp_def set_first_seen) 
  then show ?thesis using True
    by (simp add: setdefault_empty_def append_to_def grouped_by_def first_seen_snoc comp_def)
next
  case False
  then have notin: "key p \<notin> fst ` set (grouped_by key done)"
    by (simp add: grouped_by_def image_comp comp_def set_first_seen)
  have noq: "\<forall>q \<in> set done. key q \<noteq> key p"
    by (metis False image_eqI list.set_map)
  then have nokey: "filter (\<lambda>q. key q = key p) done = []"
    by (simp add: filter_empty_conv)
  have others: "\<And>k. k \<in> set (first_seen (map key done)) \<Longrightarrow> k \<noteq> key p"
    by (metis False set_first_seen)
  show ?thesis using False notin nokey others noq
    by (auto simp add: setdefault_empty_def append_to_def grouped_by_def first_seen_snoc comp_def)
qed

lemma group_by_folder_loop_grouped_by:
  "group_by_folder_loop paths (grouped_by folder_key done) = grouped_by folder_key (done @ paths)"
proof (induction paths arbitrary: "done")
  case Nil
  then show ?case by simp
next
  case (Cons p paths)
  have "group_by_folder_loop (p # paths) (grouped_by folder_key done)
      = group_by_folder_loop paths (grouped_by folder_key (done @ [p]))"
    using group_step [of folder_key "done" p] by (simp add: Let_def folder_key_def)
  then show ?case using Cons.IH [of "done @ [p]"] by simp
qed

lemma group_by_extension_loop_grouped_by:
  "group_by_extension_loop paths (grouped_by extension_key done) = grouped_by extension_key (done @ paths)"
proof (induction paths arbitrary: "done")
  case Nil
  then show ?case by simp
next
  case (Cons p paths)
  have "group_by_extension_loop (p # paths) (grouped_by extension_key done)
      = group_by_extension_loop paths (grouped_by extension_key (done @ [p]))"
    using group_step [of extension_key "done" p] by (simp add: Let_def extension_key_def)
  then show ?case using Cons.IH [of "done @ [p]"] by simp
qed

lemma grouped_by_Nil: "grouped_by key [] = []"
  by (simp add: grouped_by_def first_seen_def)

lemma group_by_folder_eq: "group_by_folder paths = grouped_by folder_key paths"
  using group_by_folder_loop_grouped_by [of paths "[]"]
  by (simp add: group_by_folder_def grouped_by_Nil)

lemma group_by_extension_eq: "group_by_extension paths = grouped_by extension_key paths"
  using group_by_extension_loop_grouped_by [of paths "[]"]
  by (simp add: group_by_extension_def grouped_by_Nil)


lemma mset_filter_split:
  "\<forall>x \<in> set xs. \<not> (P x \<and> Q x) \<Longrightarrow>
   mset (filter P xs) + mset (filter Q xs) = mset (filter (\<lambda>x. P x \<or> Q x) xs)"
  by (induction xs) auto

lemma mset_concat_groups:
  "distinct ks \<Longrightarrow>
   mset (concat (map (\<lambda>k. filter (\<lambda>p. key p = k) xs) ks)) = mset (filter (\<lambda>p. key p \<in> set ks) xs)"
proof (induction ks)
  case Nil
  then show ?case by simp
next
  case (Cons k ks)
  have "mset (filter (\<lambda>p. key p = k) xs) + mset (filter (\<lambda>p. key p \<in> set ks) xs)
      = mset (filter (\<lambda>p. key p = k \<or> key p \<in> set ks) xs)"
    using Cons.prems by (intro mset_filter_split) auto
  then show ?case using Cons by simp
qed

lemma grouped_by_partitions: "partitions (grouped_by key paths) paths"
proof -
  let ?ks = "first_seen (map key paths)"
  have d: "distinct (map fst (grouped_by key paths))"
    by (simp add: keys_grouped_by distinct_first_seen)
  have one: "\<exists>!kv. kv \<in> set (grouped_by key paths) \<and> p \<in> set (snd kv)"
    if "p \<in> set paths" for p
  proof (rule ex1I [of _ "(key p, filter (\<lambda>q. key q = key p) paths)"])
    show "(key p, filter (\<lambda>q. key q = key p) paths) \<in> set (grouped_by key paths) \<and>
          p \<in> set (snd (key p, filter (\<lambda>q. key q = key p) paths))"
      using that by (auto simp: grouped_by_def set_first_seen)
  next
    fix kv
    assume "kv \<in> set (grouped_by key paths) \<and> p \<in> set (snd kv)"
    then show "kv = (key p, filter (\<lambda>q. key q = key p) paths)"
      by (auto simp: grouped_by_def)
  qed
  have "mset (concat (map snd (grouped_by key paths)))
      = mset (filter (\<lambda>p. key p \<in> set ?ks) paths)"
    using mset_concat_groups [of ?ks key paths]
    by (simp add: grouped_by_def comp_def distinct_first_seen)
  also have "\<dots> = mset paths"
    by (simp add: set_first_seen)
  finally show ?thesis
    using d one by (simp add: partitions_def)
qed

lemma sum_group_sizes:
  "sum_list (map (snd \<circ> (\<lambda>(k, v). (k, length v))) (grouped_by key paths)) = length paths"
proof -
  have "sum_list (map (snd \<circ> (\<lambda>(k, v). (k, length v))) (grouped_by key paths))
      = length (concat (map snd (grouped_by key paths)))"
    by (simp add: length_concat comp_def case_prod_unfold)
  also have "\<dots> = size (mset (concat (map snd (grouped_by key paths))))"
    by simp
  also have "\<dots> = length paths"
    using grouped_by_partitions [of key paths] by (simp only: partitions_def size_mset)
  finally show ?thesis .
qed

section \<open>Joined segments parse back\<close>

lemma str_split_no_sep: "sep \<notin> set x \<Longrightarrow> str_split x sep = [x]"
  by (induction x) auto

lemma str_split_append_sep:
  "sep \<notin> set x \<Longrightarrow> str_split (x @ sep # rest) sep = x # str_split rest sep"
  by (induction x) auto

lemma str_split_join:
  "segs \<noteq> [] \<Longrightarrow> \<forall>s \<in> set segs. CHR ''/'' \<notin> set s \<Longrightarrow>
   str_split (join ''/'' segs) (CHR ''/'') = segs"
proof (induction "''/''" segs rule: join.induct)
  case 1
  then show ?case by simp
next
  case (2 x)
  then show ?case by (simp add: str_split_no_sep)
next
  case (3 x y ys)
  then show ?case by (simp add: str_split_append_sep)
qed

lemma take1_join:
  "segs \<noteq> [] \<Longrightarrow> hd segs \<noteq> [] \<Longrightarrow> take 1 (join sep segs) = [hd (hd segs)]"
  by (induction sep segs rule: join.induct) (auto simp: take_Suc neq_Nil_conv)

lemma Path_join:
  assumes "segs \<noteq> []" and "\<forall>s \<in> set segs. posix_name s"
  shows "Path (join ''/'' segs) = \<lparr>anchor = [], tail = segs\<rparr>"
proof -
  have hd: "hd segs \<in> set segs" using assms(1) by simp
  then have "hd segs \<noteq> []" and "CHR ''/'' \<notin> set (hd segs)"
    using assms(2) by (auto simp: posix_name_def)
  then have "hd (hd segs) \<noteq> CHR ''/''"
    by (cases "hd segs") auto
  then have "take 1 (join ''/'' segs) \<noteq> ''/''"
    using take1_join [OF assms(1) \<open>hd segs \<noteq> []\<close>] by simp
  then have root: "splitroot (join ''/'' segs) = ([], join ''/'' segs)"
    by (simp add: splitroot_def)
  have "str_split (join ''/'' segs) (CHR ''/'') = segs"
    using assms by (intro str_split_join) (auto simp: posix_name_def)
  moreover have "filter (\<lambda>x. x \<noteq> [] \<and> x \<noteq> ''.'') segs = segs"
    using assms(2) by (auto simp: posix_name_def filter_id_conv)
  ultimately show ?thesis
    by (simp add: Path_def root)
qed

lemma join_slash_not_Nil:
  "segs \<noteq> [] \<Longrightarrow> \<forall>s \<in> set segs. s \<noteq> [] \<Longrightarrow> join ''/'' segs \<noteq> []"
  by (induction "''/''" segs rule: join.induct) auto

lemma join_slash_not_dot:
  "\<forall>s \<in> set segs. posix_name s \<Longrightarrow> join ''/'' segs \<noteq> ''.''"
proof (induction "''/''" segs rule: join.induct)
  case 1
  then show ?case by simp
next
  case (2 x)
  then show ?case by (simp add: posix_name_def)
next
  case (3 x y ys)
  then have "x \<noteq> []" by (simp add: posix_name_def)
  then have len: "2 \<le> length (join ''/'' (x # y # ys))"
    by (cases x) auto
  show ?case
  proof
    assume eq: "join ''/'' (x # y # ys) = ''.''"
    have "length (join ''/'' (x # y # ys)) = 1"
      unfolding eq by simp
    with len show False by linarith
  qed
qed

lemma folder_key_join:
  assumes "segs \<noteq> []" and "\<forall>s \<in> set segs. posix_name s"
  shows "folder_key (join ''/'' segs) =
         (if butlast segs = [] then ''root'' else join ''/'' (butlast segs))"
proof (cases "butlast segs = []")
  case True
  then show ?thesis
    using assms by (simp add: folder_key_def Path_join parent_def str_def)
next
  case False
  have ok: "\<forall>s \<in> set (butlast segs). posix_name s"
    using assms(2) by (meson in_set_butlastD)
  then have "join ''/'' (butlast segs) \<noteq> []" and "join ''/'' (butlast segs) \<noteq> ''.''"
    using False join_slash_not_Nil [of "butlast segs"] join_slash_not_dot [of "butlast segs"]
    by (auto simp: posix_name_def)
  then show ?thesis
    using assms False by (simp add: folder_key_def Path_join parent_def str_def)
qed

lemma sorted_groups:
  "sorted paths \<Longrightarrow> (k, v) \<in> set (grouped_by key paths) \<Longrightarrow> sorted v"
  by (auto simp: grouped_by_def sorted_wrt_filter)

section \<open>The groupers\<close>

text \<open>
  Claim C6.  For every list of paths, \<^verbatim>\<open>group_by_folder\<close> is the grouping by
  \<open>folder_key\<close>: the keys are the parent directories of the paths (\<^verbatim>\<open>"root"\<close>
  where the parent is the root itself), each key is created once, at the first path
  that has it, and the list of a key holds exactly the paths of that key in the order
  of the input, so that the groups of a sorted input are sorted.  For a path written
  as its segments joined by slashes, the key is the path without its last segment.
\<close>

theorem group_by_folder_groups_by_parent:
  "group_by_folder paths = grouped_by folder_key paths \<and>
   map fst (group_by_folder paths) = first_seen (map folder_key paths) \<and>
   distinct (map fst (group_by_folder paths)) \<and>
   (\<forall>(k, v) \<in> set (group_by_folder paths). v = filter (\<lambda>p. folder_key p = k) paths \<and> v \<noteq> []) \<and>
   (sorted paths \<longrightarrow> (\<forall>(k, v) \<in> set (group_by_folder paths). sorted v)) \<and>
   (segs \<noteq> [] \<and> (\<forall>s \<in> set segs. posix_name s) \<longrightarrow>
      folder_key (join ''/'' segs) =
        (if butlast segs = [] then ''root'' else join ''/'' (butlast segs)))"
proof -
  have "v \<noteq> []" if "(k, v) \<in> set (grouped_by folder_key paths)" for k v
  proof -
    from that have "k \<in> set (map folder_key paths)" and v: "v = filter (\<lambda>p. folder_key p = k) paths"
      by (auto simp: grouped_by_def set_first_seen)
    then obtain p where "p \<in> set paths" "folder_key p = k" by auto
    then show ?thesis using v by (auto simp: filter_empty_conv)
  qed
  moreover have "v = filter (\<lambda>p. folder_key p = k) paths"
    if "(k, v) \<in> set (grouped_by folder_key paths)" for k v
    using that by (auto simp: grouped_by_def)
  ultimately show ?thesis
    using sorted_groups [of paths _ _ folder_key] folder_key_join [of segs]
    by (auto simp: group_by_folder_eq keys_grouped_by distinct_first_seen)
qed

theorem group_by_folder_groups_by_parent_witness:
  "sorted [''a.png'', ''a/b.JPG'', ''a/c.png''] \<and>
   [''a'', ''b.JPG''] \<noteq> [] \<and> posix_name ''a'' \<and> posix_name ''b.JPG'' \<and>
   group_by_folder [''a.png'', ''a/b.JPG'', ''a/c.png'']
     = [(''root'', [''a.png'']), (''a'', [''a/b.JPG'', ''a/c.png''])] \<and>
   sorted [''a/b.JPG'', ''a/c.png''] \<and>
   folder_key ''a/b.JPG'' = ''a''"
  using group_by_folder_groups_by_parent [of "[''a.png'', ''a/b.JPG'', ''a/c.png'']" "[''a'', ''b.JPG'']"]
  by (simp add: grouped_by_def first_seen_def folder_key_def Path_def splitroot_def parent_def
      str_def posix_name_def)

lemma fst_set_grouped_by: "fst ` set (grouped_by key paths) = key ` set paths"
proof -
  have "set (map fst (grouped_by key paths)) = key ` set paths"
    by (simp only: keys_grouped_by set_first_seen set_map)
  then show ?thesis by simp
qed

lemma length_grouped_by: "length (grouped_by key paths) = card (key ` set paths)"
proof -
  have "distinct (map fst (grouped_by key paths))"
    by (simp add: keys_grouped_by distinct_first_seen)
  then have "card (set (map fst (grouped_by key paths))) = length (map fst (grouped_by key paths))"
    by (rule distinct_card)
  then show ?thesis
    using fst_set_grouped_by [of key paths] by simp
qed

section \<open>The collector\<close>

lemmas eval_defs =
  world_of_def get_image_paths_def rglob_def make_child_def parts_def name_def startswith_def
  suffix_def lower_def lower_char_def char_of_def image_extensions_def ignore_dirs_def
  relative_to_def str_def replace_def backslash_def Let_def

lemmas path_defs =
  Path_def splitroot_def parent_def str_def name_def suffix_def lower_def lower_char_def
  char_of_def folder_key_def extension_key_def

lemma under_make_child: "under p (make_child p n)"
  by (simp add: under_def make_child_def)

lemma under_trans_child: "under (make_child p n) q \<Longrightarrow> under p q"
  by (auto simp: under_def make_child_def)

lemma walk_Dir_entries:
  "fst (walk p (Dir cs)) = map (\<lambda>(n, c). (make_child p n, c)) cs @ fst (walk_children p cs)"
  by (simp split: prod.splits)

lemma walk_children_Cons_entries:
  "set (fst (walk_children p ((n, c) # cs)))
     \<subseteq> set (fst (walk (make_child p n) c)) \<union> set (fst (walk_children p cs))"
  by (auto split: prod.splits option.splits)

lemma walk_children_Cons_cases:
  assumes "(q, m) \<in> set (fst (walk_children p ((n, c) # cs)))"
  shows "(q, m) \<in> set (fst (walk (make_child p n) c)) \<or>
         (snd (walk (make_child p n) c) = None \<and> (q, m) \<in> set (fst (walk_children p cs)))"
  using assms by (auto split: prod.splits option.splits)

lemma rglob_entries_walk: "set (fst (rglob p t)) \<subseteq> set (fst (walk p t))"
  by (cases t) (simp_all add: rglob_def)

lemma walk_under:
  "(q, m) \<in> set (fst (walk p t)) \<Longrightarrow> under p q"
  and walk_children_under:
  "(q, m) \<in> set (fst (walk_children p cs)) \<Longrightarrow> under p q"
proof (induction p t and p cs rule: walk_walk_children.induct)
  case (5 p cs)
  from 5(2) have "(q, m) \<in> set (map (\<lambda>(n, c). (make_child p n, c)) cs)
      \<or> (q, m) \<in> set (fst (walk_children p cs))"
    unfolding walk_Dir_entries by (simp only: set_append Un_iff)
  then show ?case
  proof
    assume "(q, m) \<in> set (map (\<lambda>(n, c). (make_child p n, c)) cs)"
    then show ?thesis by (auto simp: under_make_child)
  next
    assume "(q, m) \<in> set (fst (walk_children p cs))"
    then show ?thesis using 5(1) by blast
  qed
next
  case (7 p n c cs)
  from walk_children_Cons_cases [OF 7(3)] show ?case
  proof
    assume "(q, m) \<in> set (fst (walk (make_child p n) c))"
    then show ?thesis using 7(1) under_trans_child by blast
  next
    assume a: "snd (walk (make_child p n) c) = None \<and> (q, m) \<in> set (fst (walk_children p cs))"
    then have "(fst (walk (make_child p n) c), None) = walk (make_child p n) c"
      by (metis prod.collapse)
    then show ?thesis using 7(2) [OF _ refl] a by blast
  qed
qed simp_all

lemma rglob_under: "(q, m) \<in> set (fst (rglob p t)) \<Longrightarrow> under p q"
  using rglob_entries_walk walk_under by blast

lemma scan_selected:
  "\<forall>(q, n) \<in> set es. anchor q = anchor r \<and> take (length (tail r)) (tail q) = tail r \<Longrightarrow>
   scan r es acc =
     (case collect (map (selected r) (map (\<lambda>(p, n). (p, is_file n)) es)) of
        Inl e \<Rightarrow> Inl e
      | Inr ps \<Rightarrow> Inr (acc @ ps))"
proof (induction es arbitrary: acc)
  case Nil
  then show ?case by simp
next
  case (Cons e es)
  obtain q n where e: "e = (q, n)" by (cases e)
  have rel: "relative_to q r = Inr \<lparr>anchor = [], tail = drop (length (tail r)) (tail q)\<rparr>"
    using Cons.prems by (simp add: e relative_to_def)
  have IH: "\<And>acc. scan r es acc =
     (case collect (map (selected r) (map (\<lambda>(p, n). (p, is_file n)) es)) of
        Inl e \<Rightarrow> Inl e
      | Inr ps \<Rightarrow> Inr (acc @ ps))"
    using Cons by simp
  show ?case
    by (simp add: e rel IH selected_def Let_def split: sum.splits bool.splits)
qed

lemma get_image_paths_eq:
  "get_image_paths w =
     (case resolved w of
        Inl e \<Rightarrow> Inl e
      | Inr r \<Rightarrow>
          (case rglob r (tree w) of
             (es, raised) \<Rightarrow>
               (case collect (map (selected r) (map (\<lambda>(p, n). (p, is_file n)) es)) of
                  Inl e \<Rightarrow> Inl e
                | Inr ps \<Rightarrow>
                    (case raised of Some e \<Rightarrow> Inl e | None \<Rightarrow> Inr (sort ps)))))"
proof (cases "resolved w")
  case (Inl e)
  then show ?thesis by (simp add: get_image_paths_def)
next
  case (Inr r)
  obtain es raised where es: "rglob r (tree w) = (es, raised)"
    by (cases "rglob r (tree w)")
  have "\<forall>(q, n) \<in> set es. anchor q = anchor r \<and> take (length (tail r)) (tail q) = tail r"
    using rglob_under [of _ _ r "tree w"] es by (fastforce simp: under_def)
  then show ?thesis
    using Inr es by (simp add: get_image_paths_def scan_selected split: sum.splits)
qed

lemma collect_Inr:
  "collect xs = Inr ps \<longleftrightarrow> (\<forall>x \<in> set xs. \<not> isl x) \<and> ps = concat (map projr xs)"
proof (induction xs arbitrary: ps)
  case Nil
  then show ?case by auto
next
  case (Cons x xs)
  show ?case
  proof (cases x)
    case (Inl e)
    then show ?thesis by simp
  next
    case (Inr ys)
    show ?thesis
    proof (cases "collect xs")
      case (Inl e)
      then have "\<not> (\<forall>x \<in> set xs. \<not> isl x)"
        using Cons [of "concat (map projr xs)"] by simp
      then show ?thesis using Inl Inr by simp
    next
      case zs: (Inr zs)
      then have "(\<forall>x \<in> set xs. \<not> isl x) \<and> zs = concat (map projr xs)"
        using Cons [of zs] by simp
      then show ?thesis using zs Inr by auto
    qed
  qed
qed

subsection \<open>The entries of a tree\<close>

lemma lookup_NoStat: "segs \<noteq> [] \<Longrightarrow> lookup (NoStat e t) segs = lookup t segs"
  by (cases segs) simp_all

lemma walk_entries:
  "names_all P t \<Longrightarrow> distinct_names t \<Longrightarrow> (q, m) \<in> set (fst (walk p t)) \<Longrightarrow>
     \<exists>segs. segs \<noteq> [] \<and> anchor q = anchor p \<and> tail q = tail p @ segs \<and>
            (\<forall>s \<in> set segs. P s) \<and> lookup t segs = Some m"
  and walk_children_entries:
  "\<forall>(n, c) \<in> set cs. P n \<and> names_all P c \<and> distinct_names c \<Longrightarrow>
   (q, m) \<in> set (fst (walk_children p cs)) \<Longrightarrow>
     \<exists>s c segs. (s, c) \<in> set cs \<and> segs \<noteq> [] \<and> anchor q = anchor p \<and>
            tail q = tail p @ s # segs \<and> (\<forall>x \<in> set segs. P x) \<and> lookup c segs = Some m"
proof (induction p t and p cs rule: walk_walk_children.induct)
  case (3 p e t)
  then obtain segs where "segs \<noteq> []" "anchor q = anchor p" "tail q = tail p @ segs"
    "\<forall>s \<in> set segs. P s" "lookup t segs = Some m"
    by auto
  then have "segs \<noteq> [] \<and> anchor q = anchor p \<and> tail q = tail p @ segs \<and>
            (\<forall>s \<in> set segs. P s) \<and> lookup (NoStat e t) segs = Some m"
    by (simp add: lookup_NoStat)
  then show ?case by blast
next
  case (5 p cs)
  have d: "distinct (map fst cs)" using 5(3) by simp
  have kids: "\<forall>(n, c) \<in> set cs. P n \<and> names_all P c \<and> distinct_names c"
    using 5(2,3) by auto
  from 5(4) have "(q, m) \<in> set (map (\<lambda>(n, c). (make_child p n, c)) cs)
      \<or> (q, m) \<in> set (fst (walk_children p cs))"
    unfolding walk_Dir_entries by (simp only: set_append Un_iff)
  then show ?case
  proof
    assume "(q, m) \<in> set (map (\<lambda>(n, c). (make_child p n, c)) cs)"
    then obtain n where n: "(n, m) \<in> set cs" and q: "q = make_child p n"
      by auto
    have "map_of cs n = Some m" using d n by simp
    moreover have "P n" using kids n by auto
    ultimately have "[n] \<noteq> [] \<and> anchor q = anchor p \<and> tail q = tail p @ [n] \<and>
            (\<forall>s \<in> set [n]. P s) \<and> lookup (Dir cs) [n] = Some m"
      by (simp add: q make_child_def)
    then show ?thesis by blast
  next
    assume "(q, m) \<in> set (fst (walk_children p cs))"
    then obtain s c segs where s: "(s, c) \<in> set cs" and segs: "segs \<noteq> []"
      and a: "anchor q = anchor p" and t: "tail q = tail p @ s # segs"
      and P: "\<forall>x \<in> set segs. P x" and l: "lookup c segs = Some m"
      using 5(1) [OF kids] by blast
    have "map_of cs s = Some c" using d s by simp
    moreover have "P s" using kids s by auto
    ultimately have "s # segs \<noteq> [] \<and> anchor q = anchor p \<and> tail q = tail p @ s # segs \<and>
            (\<forall>x \<in> set (s # segs). P x) \<and> lookup (Dir cs) (s # segs) = Some m"
      using a t P l by simp
    then show ?thesis by blast
  qed
next
  case (7 p n c cs)
  have c: "P n" "names_all P c" "distinct_names c"
    and rest: "\<forall>(n, c) \<in> set cs. P n \<and> names_all P c \<and> distinct_names c"
    using 7(3) by auto
  from walk_children_Cons_cases [OF 7(4)] show ?case
  proof
    assume "(q, m) \<in> set (fst (walk (make_child p n) c))"
    then obtain segs where "segs \<noteq> []" "anchor q = anchor (make_child p n)"
      "tail q = tail (make_child p n) @ segs" "\<forall>s \<in> set segs. P s" "lookup c segs = Some m"
      using 7(1) [OF c(2,3)] by blast
    then have "(n, c) \<in> set ((n, c) # cs) \<and> segs \<noteq> [] \<and> anchor q = anchor p \<and>
            tail q = tail p @ n # segs \<and> (\<forall>x \<in> set segs. P x) \<and> lookup c segs = Some m"
      by (simp add: make_child_def)
    then show ?thesis by blast
  next
    assume a: "snd (walk (make_child p n) c) = None \<and> (q, m) \<in> set (fst (walk_children p cs))"
    then have eq: "(fst (walk (make_child p n) c), None) = walk (make_child p n) c"
      by (metis prod.collapse)
    obtain s c' segs where "(s, c') \<in> set cs" "segs \<noteq> []" "anchor q = anchor p"
      "tail q = tail p @ s # segs" "\<forall>x \<in> set segs. P x" "lookup c' segs = Some m"
      using 7(2) [OF eq refl rest] a by blast
    then have "(s, c') \<in> set ((n, c) # cs) \<and> segs \<noteq> [] \<and> anchor q = anchor p \<and>
            tail q = tail p @ s # segs \<and> (\<forall>x \<in> set segs. P x) \<and> lookup c' segs = Some m"
      by simp
    then show ?thesis by blast
  qed
qed simp_all

lemma make_child_eq: "make_child p n = make_child p n' \<longleftrightarrow> n = n'"
proof
  assume "make_child p n = make_child p n'"
  then have "tail (make_child p n) = tail (make_child p n')" by simp
  then show "n = n'" by (simp add: make_child_def)
qed simp

lemma walk_children_shape:
  "(q, m) \<in> set (fst (walk_children p cs)) \<Longrightarrow>
   \<exists>s segs. s \<in> fst ` set cs \<and> segs \<noteq> [] \<and> anchor q = anchor p \<and> tail q = tail p @ s # segs"
proof (induction cs)
  case Nil
  then show ?case by simp
next
  case (Cons nc cs)
  obtain n c where nc: "nc = (n, c)" by (cases nc)
  from Cons.prems have "(q, m) \<in> set (fst (walk (make_child p n) c))
      \<or> (q, m) \<in> set (fst (walk_children p cs))"
    using walk_children_Cons_cases [of q m p n c cs] by (auto simp: nc)
  then show ?case
  proof
    assume "(q, m) \<in> set (fst (walk (make_child p n) c))"
    then have "under (make_child p n) q"
      by (rule walk_under)
    then obtain segs where "segs \<noteq> []" "anchor q = anchor p" "tail q = tail p @ n # segs"
      by (auto simp: under_def make_child_def)
    then show ?thesis by (auto simp: nc)
  next
    assume "(q, m) \<in> set (fst (walk_children p cs))"
    then show ?thesis using Cons.IH by auto
  qed
qed

lemma walk_distinct:
  "distinct_names t \<Longrightarrow> distinct (map fst (fst (walk p t)))"
  and walk_children_distinct:
  "distinct (map fst cs) \<Longrightarrow> \<forall>(n, c) \<in> set cs. distinct_names c \<Longrightarrow>
   distinct (map fst (fst (walk_children p cs)))"
proof (induction p t and p cs rule: walk_walk_children.induct)
  case (5 p cs)
  let ?sub = "fst (walk_children p cs)"
  have d: "distinct (map fst cs)" and kids: "\<forall>(n, c) \<in> set cs. distinct_names c"
    using 5(2) by auto
  have ds: "distinct (map fst ?sub)"
    using 5(1) [OF d kids] .
  have eq: "map fst (map (\<lambda>(n, c). (make_child p n, c)) cs) = map (make_child p) (map fst cs)"
    by (simp add: comp_def case_prod_unfold)
  have "inj_on (make_child p) (set (map fst cs))"
    by (rule inj_onI) (simp add: make_child_eq)
  then have dk: "distinct (map fst (map (\<lambda>(n, c). (make_child p n, c)) cs))"
    unfolding eq using d by (simp only: distinct_map)
  have "q \<noteq> q'" if "q \<in> set (map (make_child p) (map fst cs))" "q' \<in> set (map fst ?sub)" for q q'
  proof -
    from that(1) have "length (tail q) = Suc (length (tail p))"
      by (auto simp: make_child_def)
    moreover from that(2) obtain m where "(q', m) \<in> set ?sub" by auto
    then obtain s segs where "segs \<noteq> []" "tail q' = tail p @ s # segs"
      using walk_children_shape [of q' m p cs] by blast
    then have "length (tail q') > Suc (length (tail p))"
      by (cases segs) auto
    ultimately show ?thesis by auto
  qed
  then have "set (map fst (map (\<lambda>(n, c). (make_child p n, c)) cs)) \<inter> set (map fst ?sub) = {}"
    unfolding eq by blast
  then show ?case
    unfolding walk_Dir_entries using dk ds by (simp only: map_append distinct_append)
next
  case (7 p n c cs)
  obtain xs rx where w: "walk (make_child p n) c = (xs, rx)"
    by (cases "walk (make_child p n) c")
  let ?ys = "fst (walk_children p cs)"
  have n: "n \<notin> fst ` set cs" and d: "distinct (map fst cs)"
    and c: "distinct_names c" and kids: "\<forall>(n, c) \<in> set cs. distinct_names c"
    using 7(3,4) by auto
  have "fst (walk (make_child p n) c) = xs" by (simp only: w fst_conv)
  then have dx: "distinct (map fst xs)" using 7(1) [OF c] by (simp only:)
  show ?case
  proof (cases rx)
    case (Some e)
    then have "fst (walk_children p ((n, c) # cs)) = xs"
      by (simp add: w)
    then show ?thesis using dx by (simp only:)
  next
    case None
    have dy: "distinct (map fst ?ys)" using 7(2) [OF w [symmetric] None d kids] .
    have "q \<noteq> q'" if "q \<in> set (map fst xs)" "q' \<in> set (map fst ?ys)" for q q'
    proof -
      from that(1) obtain m where "(q, m) \<in> set xs" by auto
      then have "(q, m) \<in> set (fst (walk (make_child p n) c))"
        by (simp only: w fst_conv)
      then have "under (make_child p n) q"
        by (rule walk_under)
      then obtain segs where q: "tail q = tail p @ n # segs"
        by (auto simp: under_def make_child_def)
      from that(2) obtain m' where "(q', m') \<in> set ?ys" by auto
      then obtain s segs' where s: "s \<in> fst ` set cs" and q': "tail q' = tail p @ s # segs'"
        using walk_children_shape [of q' m' p cs] by blast
      from s n have "s \<noteq> n" by auto
      then show ?thesis using q q' by auto
    qed
    then have disj: "set (map fst xs) \<inter> set (map fst ?ys) = {}"
      by blast
    have "fst (walk_children p ((n, c) # cs)) = xs @ ?ys"
      by (simp add: w None split: prod.splits)
    then show ?thesis
      using dx dy disj by (simp only: map_append distinct_append)
  qed
qed simp_all

lemma rglob_distinct:
  assumes "distinct_names t"
  shows "distinct (map fst (fst (rglob p t)))"
proof (cases "\<exists>e t'. t = NoStat e t'")
  case True
  then show ?thesis by (auto simp: rglob_def)
next
  case False
  then have "rglob p t = walk p t"
    by (cases t) (simp_all add: rglob_def)
  then show ?thesis
    using walk_distinct [OF assms, of p] by (simp only:)
qed

lemma rglob_entries:
  assumes "names_all P t" and "distinct_names t" and "(q, m) \<in> set (fst (rglob p t))"
  shows "\<exists>segs. segs \<noteq> [] \<and> anchor q = anchor p \<and> tail q = tail p @ segs \<and>
            (\<forall>s \<in> set segs. P s) \<and> lookup t segs = Some m"
proof -
  have "(q, m) \<in> set (fst (walk p t))"
    using assms(3) rglob_entries_walk by blast
  then show ?thesis
    using assms(1,2) by (rule walk_entries [rotated 2])
qed

subsection \<open>Trees without backslashes\<close>

lemma names_all_conj:
  "names_all P t \<Longrightarrow> names_all Q t \<Longrightarrow> names_all (\<lambda>n. P n \<and> Q n) t"
  by (induction P t rule: names_all.induct) fastforce+

lemma set_join_slash: "set (join ''/'' segs) \<subseteq> insert (CHR ''/'') (\<Union> (set ` set segs))"
  by (induction "''/''" segs rule: join.induct) auto

lemma replace_absent: "old \<notin> set s \<Longrightarrow> replace s old new = s"
  by (induction s) (auto simp: replace_def)

lemma is_file_True: "is_file m = Inr True \<longleftrightarrow> m = File"
  by (cases m) simp_all

lemma selected_single:
  "selected r x = Inr ps \<Longrightarrow> ps \<noteq> [] \<Longrightarrow>
   ps = [(\<lambda>(q, f). replace (str \<lparr>anchor = [], tail = drop (length (tail r)) (tail q)\<rparr>)
                      backslash (CHR ''/'')) x]"
  by (cases x) (auto simp: selected_def split: if_splits sum.splits)

lemma concat_selected:
  "\<forall>x \<in> set xs. \<not> isl (selected r x) \<Longrightarrow>
   concat (map projr (map (selected r) xs)) =
     map (\<lambda>(q, f). replace (str \<lparr>anchor = [], tail = drop (length (tail r)) (tail q)\<rparr>)
                      backslash (CHR ''/''))
       (filter (\<lambda>x. projr (selected r x) \<noteq> []) xs)"
proof (induction xs)
  case Nil
  then show ?case by simp
next
  case (Cons x xs)
  then obtain ps where ps: "selected r x = Inr ps"
    by (cases "selected r x") auto
  show ?case
  proof (cases "ps = []")
    case True
    then show ?thesis using Cons ps by simp
  next
    case False
    then show ?thesis using Cons ps selected_single [OF ps False] by simp
  qed
qed

text \<open>What the collector makes of one entry of a tree without backslashes.\<close>

lemma selected_entry:
  assumes wf: "well_formed t" and bf: "backslash_free t"
    and qm: "(q, m) \<in> set (fst (rglob r t))"
    and sel: "selected r (q, is_file m) = Inr ps" and ne: "ps \<noteq> []"
  shows "\<exists>segs. segs \<noteq> [] \<and> anchor q = anchor r \<and> tail q = tail r @ segs \<and>
           ps = [join ''/'' segs] \<and>
           str_split (join ''/'' segs) (CHR ''/'') = segs \<and>
           Path (join ''/'' segs) = \<lparr>anchor = [], tail = segs\<rparr> \<and>
           (\<forall>s \<in> set segs. posix_name s \<and> s \<notin> ignore_dirs) \<and>
           \<not> startswith (last segs) ''.'' \<and>
           lookup t segs = Some File \<and>
           lower (suffix (Path (join ''/'' segs))) \<in> image_extensions"
proof -
  have na: "names_all (\<lambda>n. posix_name n \<and> backslash \<notin> set n) t" and dn: "distinct_names t"
    using wf bf by (simp_all add: well_formed_def backslash_free_def names_all_conj)
  obtain segs where segs: "segs \<noteq> []" and a: "anchor q = anchor r"
    and t: "tail q = tail r @ segs"
    and ok: "\<forall>s \<in> set segs. posix_name s \<and> backslash \<notin> set s"
    and l: "lookup t segs = Some m"
    using rglob_entries [OF na dn qm] by blast
  have posix: "\<forall>s \<in> set segs. posix_name s" using ok by blast
  from sel ne have ign: "\<not> (\<exists>part \<in> set (parts q). part \<in> ignore_dirs)"
    and dot: "\<not> startswith (name q) ''.''" and f: "is_file m = Inr True"
    and ext: "lower (suffix q) \<in> image_extensions"
    by (auto simp: selected_def split: if_splits sum.splits)
  have m: "m = File" using f by (simp add: is_file_True)
  have nm: "name q = last segs" using segs t by (simp add: name_def)
  have P: "Path (join ''/'' segs) = \<lparr>anchor = [], tail = segs\<rparr>"
    using segs posix by (rule Path_join)
  then have "name (Path (join ''/'' segs)) = name q"
    using segs nm by (simp add: name_def)
  then have sfx: "suffix (Path (join ''/'' segs)) = suffix q"
    by (simp add: suffix_def)
  have nonempty: "join ''/'' segs \<noteq> []"
    using segs posix by (intro join_slash_not_Nil) (auto simp: posix_name_def)
  have "backslash \<notin> set (join ''/'' segs)"
    using set_join_slash [of segs] ok by (auto simp: backslash_def)
  then have out: "replace (join ''/'' segs) backslash (CHR ''/'') = join ''/'' segs"
    by (rule replace_absent)
  have "selected r (q, is_file m) = Inr [join ''/'' segs]"
    using ign dot f ext t nonempty out by (simp add: selected_def str_def)
  then have "ps = [join ''/'' segs]"
    using sel by simp
  moreover have "str_split (join ''/'' segs) (CHR ''/'') = segs"
    using segs posix by (intro str_split_join) (auto simp: posix_name_def)
  moreover have "\<forall>s \<in> set segs. s \<notin> ignore_dirs"
    using ign t by (auto simp: parts_def)
  ultimately show ?thesis
    using segs a t P posix dot nm l m ext sfx by auto
qed

text \<open>
  On a well-formed tree in which no name holds a backslash, the list the collector
  returns is sorted and without duplicates, and every element of it is the segments
  of an entry of the tree joined by slashes: the entry is a file with a supported
  extension, none of the segments is in the ignore set, and the last does not begin
  with a dot.
\<close>

lemma collector_on_backslash_free_tree:
  assumes wf: "well_formed (tree w)" and bf: "backslash_free (tree w)"
    and g: "get_image_paths w = Inr paths"
  shows "sorted paths \<and> distinct paths \<and>
    (\<forall>p \<in> set paths.
       \<exists>segs. segs \<noteq> [] \<and> p = join ''/'' segs \<and> str_split p (CHR ''/'') = segs \<and>
              (\<forall>s \<in> set segs. posix_name s \<and> s \<notin> ignore_dirs) \<and>
              \<not> startswith (last segs) ''.'' \<and>
              lookup (tree w) segs = Some File \<and>
              lower (suffix (Path p)) \<in> image_extensions)"
proof -
  let ?g = "\<lambda>(p, n). (p, is_file n)"
  from g obtain r es ps where r: "resolved w = Inr r" and es: "rglob r (tree w) = (es, None)"
    and col: "collect (map (selected r) (map ?g es)) = Inr ps"
    and paths: "paths = sort ps"
    by (auto simp: get_image_paths_eq split: sum.splits prod.splits option.splits)
  have fes: "fst (rglob r (tree w)) = es" using es by simp
  from col have col': "(\<forall>x \<in> set (map (selected r) (map ?g es)). \<not> isl x) \<and>
      ps = concat (map projr (map (selected r) (map ?g es)))"
    unfolding collect_Inr .
  then have ok: "\<forall>x \<in> set (map ?g es). \<not> isl (selected r x)"
    by simp
  from col' have ps: "ps = concat (map projr (map (selected r) (map ?g es)))"
    by (rule conjunct2)
  let ?xs = "filter (\<lambda>x. projr (selected r x) \<noteq> []) (map ?g es)"
  let ?out = "\<lambda>(q, f). replace (str \<lparr>anchor = [], tail = drop (length (tail r)) (tail q)\<rparr>)
                      backslash (CHR ''/'')"
  have c: "ps = map ?out ?xs"
    unfolding ps using ok by (rule concat_selected)
  have entry: "\<exists>segs. f = Inr True \<and> segs \<noteq> [] \<and> tail q = tail r @ segs \<and>
           anchor q = anchor r \<and> ?out (q, f) = join ''/'' segs \<and>
           str_split (join ''/'' segs) (CHR ''/'') = segs \<and>
           (\<forall>s \<in> set segs. posix_name s \<and> s \<notin> ignore_dirs) \<and>
           \<not> startswith (last segs) ''.'' \<and>
           lookup (tree w) segs = Some File \<and>
           lower (suffix (Path (join ''/'' segs))) \<in> image_extensions"
    if "(q, f) \<in> set ?xs" for q f
  proof -
    from that obtain m where qm: "(q, m) \<in> set es" and f: "f = is_file m"
      and ne: "projr (selected r (q, is_file m)) \<noteq> []"
      by auto
    have "\<not> isl (selected r (q, is_file m))"
      using ok qm by force
    then obtain sp where sel: "selected r (q, is_file m) = Inr sp"
      by (cases "selected r (q, is_file m)") auto
    then have sp: "sp \<noteq> []" using ne by simp
    have qm': "(q, m) \<in> set (fst (rglob r (tree w)))"
      using qm fes by simp
    from selected_entry [OF wf bf qm' sel sp] obtain segs where s: "segs \<noteq> []"
      "anchor q = anchor r" "tail q = tail r @ segs"
      "sp = [join ''/'' segs]"
      "str_split (join ''/'' segs) (CHR ''/'') = segs"
      "\<forall>s \<in> set segs. posix_name s \<and> s \<notin> ignore_dirs"
      "\<not> startswith (last segs) ''.''"
      "lookup (tree w) segs = Some File"
      "lower (suffix (Path (join ''/'' segs))) \<in> image_extensions"
      by blast
    have "sp = [?out (q, f)]"
      using selected_single [OF sel sp] f by simp
    then have o: "?out (q, f) = join ''/'' segs"
      using s(4) by simp
    have "is_file m = Inr True"
      using sel sp by (auto simp: selected_def split: if_splits sum.splits)
    then show ?thesis using f s o by auto
  qed
  have elems: "\<exists>segs. segs \<noteq> [] \<and> p = join ''/'' segs \<and> str_split p (CHR ''/'') = segs \<and>
              (\<forall>s \<in> set segs. posix_name s \<and> s \<notin> ignore_dirs) \<and>
              \<not> startswith (last segs) ''.'' \<and>
              lookup (tree w) segs = Some File \<and>
              lower (suffix (Path p)) \<in> image_extensions"
    if "p \<in> set paths" for p
  proof -
    from that have "p \<in> set (map ?out ?xs)"
      unfolding paths c by simp
    then obtain x where x: "x \<in> set ?xs" and px: "p = ?out x"
      unfolding set_map by blast
    obtain q f where xq: "x = (q, f)" by (cases x)
    from entry [of q f] x xq obtain segs where s: "segs \<noteq> []"
      "?out (q, f) = join ''/'' segs"
      "str_split (join ''/'' segs) (CHR ''/'') = segs"
      "\<forall>s \<in> set segs. posix_name s \<and> s \<notin> ignore_dirs"
      "\<not> startswith (last segs) ''.''"
      "lookup (tree w) segs = Some File"
      "lower (suffix (Path (join ''/'' segs))) \<in> image_extensions"
      by blast
    have pj: "p = join ''/'' segs"
      using px xq s(2) by simp
    show ?thesis
      unfolding pj using s(1,3-7) by (intro exI [of _ segs]) simp
  qed
  have "distinct (map fst es)"
    using wf rglob_distinct [of "tree w" r] fes by (simp add: well_formed_def)
  then have "distinct (map fst (map ?g es))"
    by (simp add: comp_def case_prod_unfold)
  then have "distinct (map ?g es)"
    by (simp only: distinct_map)
  then have dx: "distinct ?xs" by simp
  have "inj_on ?out (set ?xs)"
  proof (rule inj_onI)
    fix x y
    assume x: "x \<in> set ?xs" and y: "y \<in> set ?xs" and eq: "?out x = ?out y"
    obtain q f where xq: "x = (q, f)" by (cases x)
    obtain q' f' where yq: "y = (q', f')" by (cases y)
    from entry [of q f] x xq obtain segs where 1: "f = Inr True" "tail q = tail r @ segs"
      "anchor q = anchor r" "?out (q, f) = join ''/'' segs"
      "str_split (join ''/'' segs) (CHR ''/'') = segs"
      by blast
    from entry [of q' f'] y yq obtain segs' where 2: "f' = Inr True" "tail q' = tail r @ segs'"
      "anchor q' = anchor r" "?out (q', f') = join ''/'' segs'"
      "str_split (join ''/'' segs') (CHR ''/'') = segs'"
      by blast
    from eq have "join ''/'' segs = join ''/'' segs'"
      using 1(4) 2(4) xq yq by simp
    then have "segs = segs'"
      using 1(5) 2(5) by metis
    then have "q = q'"
      using 1(2,3) 2(2,3) by simp
    then show "x = y" using xq yq 1(1) 2(1) by simp
  qed
  then have "distinct (map ?out ?xs)"
    using dx by (simp only: distinct_map)
  then have "distinct paths"
    unfolding paths c by simp
  moreover have "sorted paths"
    unfolding paths by simp
  ultimately show ?thesis
    using elems by blast
qed

text \<open>On such a tree every key of the grouping by extension is a supported
  extension, so \<^verbatim>\<open>"no_extension"\<close> is not among them.\<close>

lemma no_extension_absent_on_backslash_free_tree:
  assumes "well_formed (tree w)" and "backslash_free (tree w)"
    and "get_image_paths w = Inr paths"
  shows "''no_extension'' \<notin> fst ` set (group_by_extension paths) \<and>
         fst ` set (group_by_extension paths) \<subseteq> image_extensions"
proof -
  have "extension_key p \<in> image_extensions" if "p \<in> set paths" for p
  proof -
    from collector_on_backslash_free_tree [OF assms] that
    have e: "lower (suffix (Path p)) \<in> image_extensions" by blast
    then have "lower (suffix (Path p)) \<noteq> []"
      by (auto simp: image_extensions_def)
    then show ?thesis using e by (simp add: extension_key_def)
  qed
  then have "fst ` set (group_by_extension paths) \<subseteq> image_extensions"
    by (auto simp: group_by_extension_eq fst_set_grouped_by)
  moreover have "''no_extension'' \<notin> image_extensions"
    by (simp add: image_extensions_def)
  ultimately show ?thesis by blast
qed

subsection \<open>Hidden directories, and names with a backslash\<close>

text \<open>
  Claim C10.  There is a tree with an image in a directory whose name begins with
  a dot and is not in the ignore set, \<^verbatim>\<open>.hidden/a.png\<close>, that the collector
  returns: only the entry's own name is tested for the dot.
\<close>

theorem hidden_directory_is_descended:
  "get_image_paths (world_of (Dir [(''.hidden'', Dir [(''a.png'', File)])])) = Inr [''.hidden/a.png'']"
  by (simp add: eval_defs)

text \<open>
  Claim C4, at an input where the code breaks it.  On a POSIX host a backslash is
  an ordinary character of a file name, and \<^verbatim>\<open>replace("\\", "/")\<close> turns it into a
  separator.  With a file \<^verbatim>\<open>a\b.png\<close> beside a directory \<^verbatim>\<open>a\<close> holding
  \<^verbatim>\<open>b.png\<close>, the collector returns \<^verbatim>\<open>a/b.png\<close> twice; with the file
  \<^verbatim>\<open>a\b.png\<close> alone, it returns \<^verbatim>\<open>a/b.png\<close>, where the tree has no entry.
\<close>

theorem backslash_name_breaks_collector:
  "well_formed (Dir [(''a'' @ backslash # ''b.png'', File), (''a'', Dir [(''b.png'', File)])]) \<and>
   get_image_paths
       (world_of (Dir [(''a'' @ backslash # ''b.png'', File), (''a'', Dir [(''b.png'', File)])]))
     = Inr [''a/b.png'', ''a/b.png''] \<and>
   \<not> distinct [''a/b.png'', ''a/b.png''] \<and>
   well_formed (Dir [(''a'' @ backslash # ''b.png'', File)]) \<and>
   get_image_paths (world_of (Dir [(''a'' @ backslash # ''b.png'', File)])) = Inr [''a/b.png''] \<and>
   lookup (Dir [(''a'' @ backslash # ''b.png'', File)]) (str_split ''a/b.png'' (CHR ''/'')) = None"
  by (simp add: eval_defs well_formed_def posix_name_def)

text \<open>
  Claim C5, at an input where the code breaks it.  For the files \<^verbatim>\<open>out\a.png\<close>
  and \<^verbatim>\<open>x\.b.png\<close> of the root, neither hidden nor below an ignored directory,
  the collector returns \<^verbatim>\<open>out/a.png\<close>, whose first segment is in the ignore set,
  and \<^verbatim>\<open>x/.b.png\<close>, whose file name begins with a dot.
\<close>

theorem backslash_name_yields_ignored_segment:
  "well_formed (Dir [(''out'' @ backslash # ''a.png'', File), (''x'' @ backslash # ''.b.png'', File)]) \<and>
   get_image_paths
       (world_of (Dir [(''out'' @ backslash # ''a.png'', File), (''x'' @ backslash # ''.b.png'', File)]))
     = Inr [''out/a.png'', ''x/.b.png''] \<and>
   str_split ''out/a.png'' (CHR ''/'') = [''out'', ''a.png''] \<and>
   ''out'' \<in> ignore_dirs \<and>
   startswith (name (Path ''x/.b.png'')) ''.''"
  by (simp add: eval_defs well_formed_def posix_name_def Path_def splitroot_def)

text \<open>
  Claim C7, at an input where the code breaks it.  For the file \<^verbatim>\<open>x\.png\<close> of
  the root, whose suffix is \<^verbatim>\<open>.png\<close>, the collector returns \<^verbatim>\<open>x/.png\<close>, a
  path whose name \<^verbatim>\<open>.png\<close> has no suffix: \<^verbatim>\<open>group_by_extension\<close> files it
  under \<^verbatim>\<open>"no_extension"\<close>.
\<close>

theorem backslash_name_yields_no_extension:
  "well_formed (Dir [(''x'' @ backslash # ''.png'', File)]) \<and>
   get_image_paths (world_of (Dir [(''x'' @ backslash # ''.png'', File)])) = Inr [''x/.png''] \<and>
   group_by_extension [''x/.png''] = [(''no_extension'', [''x/.png''])]"
  by (simp add: eval_defs well_formed_def posix_name_def Path_def splitroot_def group_by_extension_def
      setdefault_empty_def append_to_def)

section \<open>The report document\<close>

lemma digit_value:
  assumes "d < 10"
  shows "of_char (''0123456789'' ! d) - 48 = d"
proof -
  from assms have "d = 0 \<or> d = 1 \<or> d = 2 \<or> d = 3 \<or> d = 4 \<or> d = 5 \<or> d = 6 \<or> d = 7 \<or> d = 8 \<or> d = 9"
    by arith
  then show ?thesis
    by (elim disjE) simp_all
qed

lemma decimal_value_snoc:
  "decimal_value (s @ [c]) = 10 * decimal_value s + (of_char c - 48)"
  by (simp add: decimal_value_def)

text \<open>\<open>str_nat\<close> prints a number in decimal: its digits read back as the number.\<close>

lemma decimal_value_str_nat: "decimal_value (str_nat n) = n"
proof (induction n rule: str_nat.induct)
  case (1 n)
  show ?case
  proof (cases "n < 10")
    case True
    then have "str_nat n = [''0123456789'' ! n]"
      by (simp add: str_nat.simps)
    then show ?thesis
      using digit_value [OF True] by (simp add: decimal_value_def)
  next
    case False
    then have s: "str_nat n = str_nat (n div 10) @ [''0123456789'' ! (n mod 10)]"
      by (subst str_nat.simps) simp
    have "decimal_value (str_nat n) = 10 * decimal_value (str_nat (n div 10)) + n mod 10"
      unfolding s decimal_value_snoc using digit_value [of "n mod 10"] by simp
    then show ?thesis
      using 1 [OF False] by simp
  qed
qed

text \<open>
  Claim C2.  For a list of paths that is not empty, the \<open>summary\<close> of the document
  is \<^verbatim>\<open>"Found N image files across M folders"\<close>, N being \<open>total_images\<close>, the
  length of the list, and M the number of keys of the grouping by folder, which is
  the number of distinct folder keys among the paths.
\<close>

theorem summary_counts_images_and_folders:
  "paths \<noteq> [] \<Longrightarrow>
   summary (main_output w paths) =
     ''Found '' @ str_nat (total_images (metadata (main_output w paths)))
       @ '' image files across ''
       @ str_nat (card (fst ` set (by_folder (images (main_output w paths)))))
       @ '' folders'' \<and>
   total_images (metadata (main_output w paths)) = length paths \<and>
   card (fst ` set (by_folder (images (main_output w paths)))) = card (folder_key ` set paths)"
  by (simp add: main_output_def create_json_output_def Let_def group_by_folder_eq
      fst_set_grouped_by length_grouped_by)

theorem summary_counts_images_and_folders_witness:
  "[''a.png'', ''a/b.JPG'', ''a/c.png''] \<noteq> [] \<and>
   summary (main_output (world_of (Dir [])) [''a.png'', ''a/b.JPG'', ''a/c.png''])
     = ''Found 3 image files across 2 folders''"
  using summary_counts_images_and_folders [of "[''a.png'', ''a/b.JPG'', ''a/c.png'']" "world_of (Dir [])"]
  by (simp add: path_defs str_nat.simps)

text \<open>
  Claim C3.  For every list of paths, the document \<^verbatim>\<open>create_json_output\<close>
  builds from it and the one \<^verbatim>\<open>main\<close> writes for it hold the list as
  \<open>all_paths\<close>, and the grouping by folder and the grouping by extension each
  partition the list: every path of the list is in exactly one group, and the
  groups together hold the paths of the list.  The counts of each statistic are
  the sizes of the groups and add up to \<open>total_images\<close>, the length of the list.
\<close>

theorem groupings_partition_paths:
  "reports (create_json_output w paths) paths \<and> reports (main_output w paths) paths"
proof -
  have 1: "reports (create_json_output w paths) paths"
    by (simp add: reports_def create_json_output_def Let_def group_by_folder_eq
        group_by_extension_eq grouped_by_partitions sum_group_sizes)
  have "reports (main_output w []) []"
    by (simp add: main_output_def reports_def partitions_def)
  with 1 show ?thesis
    by (cases "paths = []") (simp_all add: main_output_def)
qed

theorem groupings_partition_paths_witness:
  "all_paths (images (main_output (world_of (Dir [])) [''a.png'', ''a/b.JPG''])) = [''a.png'', ''a/b.JPG''] \<and>
   (\<exists>!kv. kv \<in> set (by_folder (images (main_output (world_of (Dir [])) [''a.png'', ''a/b.JPG''])))
           \<and> ''a/b.JPG'' \<in> set (snd kv)) \<and>
   (\<exists>!kv. kv \<in> set (by_extension (images (main_output (world_of (Dir [])) [''a.png'', ''a/b.JPG''])))
           \<and> ''a/b.JPG'' \<in> set (snd kv)) \<and>
   mset (concat (map snd (by_folder (images (main_output (world_of (Dir [])) [''a.png'', ''a/b.JPG''])))))
     = mset [''a.png'', ''a/b.JPG''] \<and>
   sum_list (map snd (stat_by_folder (statistics (main_output (world_of (Dir [])) [''a.png'', ''a/b.JPG'']))))
     = 2"
proof -
  let ?d = "main_output (world_of (Dir [])) [''a.png'', ''a/b.JPG'']"
  have p: "reports ?d [''a.png'', ''a/b.JPG'']"
    using groupings_partition_paths [of "world_of (Dir [])" "[''a.png'', ''a/b.JPG'']"] by simp
  have a: "all_paths (images ?d) = [''a.png'', ''a/b.JPG'']"
    and pf: "partitions (by_folder (images ?d)) [''a.png'', ''a/b.JPG'']"
    and pe: "partitions (by_extension (images ?d)) [''a.png'', ''a/b.JPG'']"
    and sm: "sum_list (map snd (stat_by_folder (statistics ?d))) = total_images (metadata ?d)"
    and t: "total_images (metadata ?d) = length [''a.png'', ''a/b.JPG'']"
    using p unfolding reports_def by blast+
  have "''a/b.JPG'' \<in> set [''a.png'', ''a/b.JPG'']"
    by simp
  then have "\<exists>!kv. kv \<in> set (by_folder (images ?d)) \<and> ''a/b.JPG'' \<in> set (snd kv)"
    and "\<exists>!kv. kv \<in> set (by_extension (images ?d)) \<and> ''a/b.JPG'' \<in> set (snd kv)"
    using pf pe unfolding partitions_def by blast+
  moreover have "mset (concat (map snd (by_folder (images ?d)))) = mset [''a.png'', ''a/b.JPG'']"
    using pf unfolding partitions_def by blast
  moreover have "sum_list (map snd (stat_by_folder (statistics ?d))) = 2"
    using sm t by simp
  ultimately show ?thesis using a by simp
qed

section \<open>Runs of the program\<close>

text \<open>
  Claim C1.  When the scan finds no image and the output file can be written, the
  program still writes the document, fully populated: \<open>total_images\<close> is 0, the
  statistics and the groupings are empty, the metadata hold the time stamp and the
  three identifiers, and \<open>summary\<close> is the fixed string
  \<^verbatim>\<open>"No image files found"\<close>, which is not what the template gives for 0 and 0.
\<close>

theorem empty_scan_writes_empty_report:
  "get_image_paths w = Inr [] \<Longrightarrow> open_error w ''image_paths.json'' = None \<Longrightarrow>
   written (main w) =
     Some (''image_paths.json'',
       \<lparr>metadata =
          \<lparr>generated_at = now w,
           total_images = 0,
           repository = environ_get w ''GITHUB_REPOSITORY'' ''local'',
           commit_sha = environ_get w ''GITHUB_SHA'' [],
           run_id = environ_get w ''GITHUB_RUN_ID'' []\<rparr>,
        statistics = \<lparr>stat_by_folder = [], stat_by_extension = []\<rparr>,
        images = \<lparr>all_paths = [], by_folder = [], by_extension = []\<rparr>,
        summary = ''No image files found''\<rparr>) \<and>
   ''No image files found''
     \<noteq> ''Found '' @ str_nat 0 @ '' image files across '' @ str_nat 0 @ '' folders''"
  by (simp add: main_def main_output_def Let_def failed_def split: option.splits)

theorem empty_scan_writes_empty_report_witness:
  "get_image_paths (world_of (Dir [(''README.md'', File), (''.git'', Dir [(''c.png'', File)])])) = Inr [] \<and>
   open_error (world_of (Dir [(''README.md'', File), (''.git'', Dir [(''c.png'', File)])])) ''image_paths.json'' = None \<and>
   written (main (world_of (Dir [(''README.md'', File), (''.git'', Dir [(''c.png'', File)])]))) =
     Some (''image_paths.json'',
       \<lparr>metadata =
          \<lparr>generated_at = ''2024-01-01T00:00:00'', total_images = 0, repository = ''local'',
           commit_sha = [], run_id = []\<rparr>,
        statistics = \<lparr>stat_by_folder = [], stat_by_extension = []\<rparr>,
        images = \<lparr>all_paths = [], by_folder = [], by_extension = []\<rparr>,
        summary = ''No image files found''\<rparr>)"
proof -
  let ?w = "world_of (Dir [(''README.md'', File), (''.git'', Dir [(''c.png'', File)])])"
  have g: "get_image_paths ?w = Inr []"
    by (simp add: eval_defs)
  have o: "open_error ?w ''image_paths.json'' = None"
    by (simp add: world_of_def)
  show ?thesis
    using empty_scan_writes_empty_report [OF g o] g o by (simp add: world_of_def environ_get_def)
qed




lemma mset_concat_map:
  "mset (concat (map h xs)) = sum_mset (image_mset (\<lambda>x. mset (h x)) (mset xs))"
  by (induction xs) simp_all

lemma sort_concat_mset:
  assumes "mset xs = mset ys"
  shows "sort (concat (map h xs)) = sort (concat (map h ys))"
proof -
  have "mset (concat (map h xs)) = mset (concat (map h ys))"
    using assms by (simp add: mset_concat_map)
  then have "mset (sort (concat (map h ys))) = mset (concat (map h xs))"
    by simp
  then show ?thesis
    by (rule properties_for_sort) simp
qed

lemma snapshot_eq:
  "snapshot w =
     (case resolved w of
        Inl e \<Rightarrow> Inl e
      | Inr r \<Rightarrow>
          (case rglob r (tree w) of
             (es, raised) \<Rightarrow>
               (case collect (map (selected r) (map (\<lambda>(p, n). (p, is_file n)) es)) of
                  Inl e \<Rightarrow> Inl e
                | Inr ps \<Rightarrow>
                    (case raised of
                       Some e \<Rightarrow> Inl e
                     | None \<Rightarrow> Inr (mset (map (\<lambda>(p, n). (p, is_file n)) es))))))"
proof (cases "resolved w")
  case (Inl e)
  then show ?thesis by (simp add: snapshot_def)
next
  case (Inr r)
  obtain es raised where es: "rglob r (tree w) = (es, raised)"
    by (cases "rglob r (tree w)")
  have "\<forall>(q, n) \<in> set es. anchor q = anchor r \<and> take (length (tail r)) (tail q) = tail r"
    using rglob_under [of _ _ r "tree w"] es by (fastforce simp: under_def)
  then show ?thesis
    using Inr es by (simp add: snapshot_def scan_selected split: sum.splits)
qed

text \<open>A scan that raises: the snapshot is the error.  A scan that returns: the
  snapshot holds the entries, and the list returned is the selected strings sorted.\<close>

lemma snapshot_Inl: "snapshot w = Inl e \<longleftrightarrow> get_image_paths w = Inl e"
  by (simp add: snapshot_eq get_image_paths_eq split: sum.splits prod.splits option.splits)

lemma snapshot_Inr:
  assumes "resolved w = Inr r" and "snapshot w = Inr M"
  shows "M = mset (map (\<lambda>(p, n). (p, is_file n)) (fst (rglob r (tree w)))) \<and>
         get_image_paths w =
           Inr (sort (concat (map (\<lambda>x. projr (selected r x))
                  (map (\<lambda>(p, n). (p, is_file n)) (fst (rglob r (tree w)))))))"
proof -
  obtain es raised where es: "rglob r (tree w) = (es, raised)"
    by (cases "rglob r (tree w)")
  let ?xs = "map (selected r) (map (\<lambda>(p, n). (p, is_file n)) es)"
  from assms es obtain ps where ps: "collect ?xs = Inr ps" and raised: "raised = None"
    and M: "M = mset (map (\<lambda>(p, n). (p, is_file n)) es)"
    by (auto simp: snapshot_eq split: sum.splits option.splits)
  from ps have "ps = concat (map projr ?xs)"
    by (simp only: collect_Inr)
  then have "ps = concat (map (\<lambda>x. projr (selected r x)) (map (\<lambda>(p, n). (p, is_file n)) es))"
    by (simp add: comp_def)
  then show ?thesis
    using assms(1) es ps raised M by (simp add: get_image_paths_eq)
qed

lemma get_image_paths_snapshot:
  assumes "resolved w' = resolved w" and "snapshot w' = snapshot w"
  shows "get_image_paths w' = get_image_paths w"
proof (cases "snapshot w")
  case (Inl e)
  then have "snapshot w' = Inl e" using assms(2) by simp
  then show ?thesis using Inl by (simp add: snapshot_Inl)
next
  case (Inr M)
  then obtain r where r: "resolved w = Inr r"
    by (cases "resolved w") (simp_all add: snapshot_def)
  let ?g = "\<lambda>(p, n). (p, is_file n)"
  have 1: "M = mset (map ?g (fst (rglob r (tree w))))"
    and 2: "get_image_paths w =
      Inr (sort (concat (map (\<lambda>x. projr (selected r x)) (map ?g (fst (rglob r (tree w)))))))"
    using snapshot_Inr [OF r Inr] by blast+
  have r': "resolved w' = Inr r" and s': "snapshot w' = Inr M"
    using assms r Inr by simp_all
  have 3: "M = mset (map ?g (fst (rglob r (tree w'))))"
    and 4: "get_image_paths w' =
      Inr (sort (concat (map (\<lambda>x. projr (selected r x)) (map ?g (fst (rglob r (tree w')))))))"
    using snapshot_Inr [OF r' s'] by blast+
  have "mset (map ?g (fst (rglob r (tree w')))) = mset (map ?g (fst (rglob r (tree w))))"
    using 1 3 by simp
  then show ?thesis
    unfolding 2 4 using sort_concat_mset by blast
qed

lemma main_output_without_timestamp:
  "environ w' = environ w \<Longrightarrow>
   without_timestamp (main_output w' paths) = without_timestamp (main_output w paths) \<and>
   total_images (metadata (main_output w' paths)) = total_images (metadata (main_output w paths))"
  by (simp add: main_output_def create_json_output_def without_timestamp_def environ_get_def Let_def)

text \<open>
  Claim C9.  Two runs from the same root over the same entries, whatever the order
  in which the host enumerates them and whatever the time, with the same
  environment variables and the same files writable, end the same: the same exit
  status, the same lines printed and appended, and the same document written, the
  keys of all its dictionaries in the same order, except for \<open>generated_at\<close>.
\<close>

theorem rerun_differs_only_in_timestamp:
  assumes "resolved w' = resolved w" and "snapshot w' = snapshot w"
    and "environ w' = environ w" and "open_error w' = open_error w"
  shows "outcome_without_timestamp (main w') = outcome_without_timestamp (main w)"
proof -
  have g: "get_image_paths w' = get_image_paths w"
    using assms(1,2) by (rule get_image_paths_snapshot)
  show ?thesis
    using main_output_without_timestamp [OF assms(3)] assms(3,4)
    by (simp add: main_def g failed_def outcome_without_timestamp_def Let_def
        split: sum.splits option.splits)
qed

theorem rerun_differs_only_in_timestamp_witness:
  "resolved ((world_of (Dir [(''b.png'', File), (''a.png'', File)]))\<lparr>now := ''2024-01-02T00:00:00''\<rparr>)
     = resolved (world_of (Dir [(''a.png'', File), (''b.png'', File)])) \<and>
   snapshot ((world_of (Dir [(''b.png'', File), (''a.png'', File)]))\<lparr>now := ''2024-01-02T00:00:00''\<rparr>)
     = snapshot (world_of (Dir [(''a.png'', File), (''b.png'', File)])) \<and>
   environ ((world_of (Dir [(''b.png'', File), (''a.png'', File)]))\<lparr>now := ''2024-01-02T00:00:00''\<rparr>)
     = environ (world_of (Dir [(''a.png'', File), (''b.png'', File)])) \<and>
   open_error ((world_of (Dir [(''b.png'', File), (''a.png'', File)]))\<lparr>now := ''2024-01-02T00:00:00''\<rparr>)
     = open_error (world_of (Dir [(''a.png'', File), (''b.png'', File)])) \<and>
   outcome_without_timestamp
       (main ((world_of (Dir [(''b.png'', File), (''a.png'', File)]))\<lparr>now := ''2024-01-02T00:00:00''\<rparr>))
     = outcome_without_timestamp (main (world_of (Dir [(''a.png'', File), (''b.png'', File)])))"
proof -
  let ?w = "world_of (Dir [(''a.png'', File), (''b.png'', File)])"
  let ?w' = "(world_of (Dir [(''b.png'', File), (''a.png'', File)]))\<lparr>now := ''2024-01-02T00:00:00''\<rparr>"
  have r: "resolved ?w' = resolved ?w" and e: "environ ?w' = environ ?w"
    and o: "open_error ?w' = open_error ?w"
    by (simp_all add: world_of_def)
  have s: "snapshot ?w' = snapshot ?w"
    by (simp add: snapshot_def world_of_def rglob_def make_child_def add_mset_commute parts_def
        name_def startswith_def ignore_dirs_def suffix_def lower_def lower_char_def char_of_def
        image_extensions_def relative_to_def Let_def)
  show ?thesis
    using rerun_differs_only_in_timestamp [OF r s e o] r s e o by simp
qed

end
